theory Spec2Isabelle
  imports Main "HOL-Library.Word" "HOL-Library.Sublist"
begin

chapter \<open>The program\<close>

section \<open>Data model\<close>

text \<open>
  \<^verbatim>\<open>DirInfo\<close> holds the bloat of one directory, \<^verbatim>\<open>Bloat\<close> the accumulator.
  Go's \<^verbatim>\<open>int64\<close> is a 64-bit word: \<open>+\<close> wraps around and \<open>sint\<close> reads the signed
  value. The map \<^verbatim>\<open>DirMap\<close> and the slice \<^verbatim>\<open>Dirs\<close> hold pointers to records; a
  record is created in \<^verbatim>\<open>AddBloat\<close> only and is owned by the one key it is stored
  under, so the records are modelled by value and \<open>Dirs\<close> is the snapshot that
  \<^verbatim>\<open>Sort\<close> takes.
\<close>

type_synonym int64 = "64 word"

record DirInfo =
  Path :: string
  Bytes :: int64

record Bloat =
  DirMap :: "string \<rightharpoonup> DirInfo"
  Dirs :: "DirInfo list"
  Abs :: bool

text \<open>\<^verbatim>\<open>NewBloat\<close>: an empty map, no slice yet, the mode as given.\<close>

definition NewBloat :: "bool \<Rightarrow> Bloat" where
  "NewBloat absmode = \<lparr>DirMap = Map.empty, Dirs = [], Abs = absmode\<rparr>"

text \<open>
  \<^verbatim>\<open>AddBloat\<close>: a key not yet in the map gets a fresh record holding \<open>bytes\<close> (the early
  return of the source); a known key has \<open>bytes\<close> added to its record.
\<close>

definition AddBloat :: "Bloat \<Rightarrow> string \<Rightarrow> int64 \<Rightarrow> Bloat" where
  "AddBloat b dir bytes =
     (case DirMap b dir of
        None \<Rightarrow> b\<lparr>DirMap := (DirMap b)(dir \<mapsto> \<lparr>Path = dir, Bytes = bytes\<rparr>)\<rparr>
      | Some info \<Rightarrow> b\<lparr>DirMap := (DirMap b)(dir \<mapsto> info\<lparr>Bytes := Bytes info + bytes\<rparr>)\<rparr>)"

section \<open>The parent directory: \<^verbatim>\<open>filepath.Dir\<close>\<close>

text \<open>
  \<^verbatim>\<open>AddFile\<close> walks up with \<^verbatim>\<open>filepath.Dir\<close> of the Go standard library, which is
  not part of the repository. It is transcribed here for the Unix build: the separator
  is \<open>/\<close>, the volume name is empty, and \<^verbatim>\<open>FromSlash\<close> is the identity. The library's
  functions, in outline:
  \<^verbatim>\<open>
  func Dir(path string) string {
      vol := VolumeName(path)
      i := len(path) - 1
      for i >= len(vol) && !os.IsPathSeparator(path[i]) { i-- }
      dir := Clean(path[len(vol) : i+1])
      if dir == "." && len(vol) > 2 { return vol }
      return vol + dir
  }

  func Clean(path string) string {
      ...
      if path == "" { return originalPath + "." }
      rooted := os.IsPathSeparator(path[0])
      n := len(path)
      out := lazybuf{path: path, ...}
      r, dotdot := 0, 0
      if rooted { out.append(Separator); r, dotdot = 1, 1 }
      for r < n {
          switch {
          case os.IsPathSeparator(path[r]):
              r++
          case path[r] == '.' && (r+1 == n || os.IsPathSeparator(path[r+1])):
              r++
          case path[r] == '.' && path[r+1] == '.' &&
                  (r+2 == n || os.IsPathSeparator(path[r+2])):
              r += 2
              switch {
              case out.w > dotdot:
                  out.w--
                  for out.w > dotdot && !os.IsPathSeparator(out.index(out.w)) { out.w-- }
              case !rooted:
                  if out.w > 0 { out.append(Separator) }
                  out.append('.'); out.append('.')
                  dotdot = out.w
              }
          default:
              if rooted && out.w != 1 || !rooted && out.w != 0 { out.append(Separator) }
              for ; r < n && !os.IsPathSeparator(path[r]); r++ { out.append(path[r]) }
          }
      }
      if out.w == 0 { out.append('.') }
      return FromSlash(out.string())
  }
  \<close>

  \<^verbatim>\<open>Clean\<close> reads the path at index \<open>r\<close> and writes a buffer of \<open>w\<close> bytes. The model
  carries the unread rest of the path (\<open>path[r:]\<close>) and the bytes written so far
  (\<open>buf[:w]\<close>, which is what the lazy buffer stands for); \<open>dotdot\<close> is the index
  below which \<open>..\<close> must not back up.
\<close>

definition IsPathSeparator :: "char \<Rightarrow> bool" where
  "IsPathSeparator c = (c = CHR ''/'')"

text \<open>
  The inner loop of the \<open>..\<close> case, entered after \<open>out.w--\<close>:
  \<^verbatim>\<open>for out.w > dotdot && !os.IsPathSeparator(out.index(out.w)) { out.w-- }\<close>.
\<close>

fun backtrack :: "string \<Rightarrow> nat \<Rightarrow> nat \<Rightarrow> nat" where
  "backtrack buf dotdot 0 = 0"
| "backtrack buf dotdot (Suc w) =
     (if Suc w > dotdot \<and> \<not> IsPathSeparator (buf ! Suc w) then backtrack buf dotdot w else Suc w)"

text \<open>
  The main loop \<^verbatim>\<open>for r < n { switch { ... } }\<close> with its four cases in the order of
  the source: an empty element, a \<open>.\<close> element, a \<open>..\<close> element, a real element.
\<close>

function clean_loop :: "bool \<Rightarrow> string \<Rightarrow> string \<Rightarrow> nat \<Rightarrow> string" where
  "clean_loop rooted [] out dotdot = out"
| "clean_loop rooted (c # cs) out dotdot =
     (if IsPathSeparator c then clean_loop rooted cs out dotdot
      else if c = CHR ''.'' \<and> (cs = [] \<or> IsPathSeparator (hd cs)) then
        clean_loop rooted cs out dotdot
      else if c = CHR ''.'' \<and> cs \<noteq> [] \<and> hd cs = CHR ''.''
              \<and> (tl cs = [] \<or> IsPathSeparator (hd (tl cs))) then
        (if length out > dotdot then
           clean_loop rooted (tl cs) (take (backtrack out dotdot (length out - 1)) out) dotdot
         else if \<not> rooted then
           clean_loop rooted (tl cs) ((if length out > 0 then out @ ''/'' else out) @ ''..'')
             (length ((if length out > 0 then out @ ''/'' else out) @ ''..''))
         else clean_loop rooted (tl cs) out dotdot)
      else
        clean_loop rooted (dropWhile (\<lambda>x. \<not> IsPathSeparator x) (c # cs))
          ((if (rooted \<and> length out \<noteq> 1) \<or> (\<not> rooted \<and> length out \<noteq> 0) then out @ ''/'' else out)
            @ takeWhile (\<lambda>x. \<not> IsPathSeparator x) (c # cs))
          dotdot)"
  by pat_completeness auto
termination
proof (relation "measure (\<lambda>(rooted, path, out, dotdot). length path)")
  fix rooted :: bool and c :: char and cs out :: string and dotdot :: nat
  assume "\<not> IsPathSeparator c"
  moreover have "length (dropWhile (\<lambda>x. \<not> IsPathSeparator x) cs) \<le> length cs"
    by (rule length_dropWhile_le)
  ultimately show "((rooted, dropWhile (\<lambda>x. \<not> IsPathSeparator x) (c # cs),
       (if (rooted \<and> length out \<noteq> 1) \<or> (\<not> rooted \<and> length out \<noteq> 0) then out @ ''/'' else out)
            @ takeWhile (\<lambda>x. \<not> IsPathSeparator x) (c # cs), dotdot), rooted, c # cs, out, dotdot)
       \<in> measure (\<lambda>(rooted, path, out, dotdot). length path)"
    by simp
qed auto

text \<open>
  \<^verbatim>\<open>Clean\<close>: the empty path is \<open>.\<close>; a rooted path starts the buffer with the
  separator (\<open>r, dotdot = 1, 1\<close>); an empty result is turned into \<open>.\<close>.
\<close>

definition Clean :: "string \<Rightarrow> string" where
  "Clean path =
     (if path = [] then ''.''
      else let out = (if IsPathSeparator (hd path) then clean_loop True (tl path) ''/'' 1
                      else clean_loop False path [] 0)
           in if out = [] then ''.'' else out)"

text \<open>
  \<^verbatim>\<open>Dir\<close>: \<open>i\<close> runs down from the last byte to the last separator, and the result is
  \<^verbatim>\<open>Clean(path[:i+1])\<close>. \<open>scan_sep path n\<close> is \<open>i + 1\<close> for the scan started at
  \<open>i = n - 1\<close>.
\<close>

fun scan_sep :: "string \<Rightarrow> nat \<Rightarrow> nat" where
  "scan_sep path 0 = 0"
| "scan_sep path (Suc i) = (if IsPathSeparator (path ! i) then Suc i else scan_sep path i)"

definition Dir :: "string \<Rightarrow> string" where
  "Dir path = Clean (take (scan_sep path (length path)) path)"

section \<open>The parent of a path has fewer separators\<close>

text \<open>
  \<^verbatim>\<open>Clean\<close> writes a separator only for one it has read, and it never writes the last
  separator of a path that ends in one. So the number of separators drops with every
  \<^verbatim>\<open>Dir\<close> until \<open>.\<close> or \<open>/\<close> is reached: the measure of the walk in \<^verbatim>\<open>AddFile\<close>.
\<close>

definition slashes :: "string \<Rightarrow> nat" where
  "slashes s = length (filter IsPathSeparator s)"

definition trailing :: "string \<Rightarrow> nat" where
  "trailing s = (if s \<noteq> [] \<and> IsPathSeparator (last s) then 1 else 0)"

definition credit :: "bool \<Rightarrow> string \<Rightarrow> string \<Rightarrow> nat" where
  "credit rooted rest out =
     (if rest = [] \<or> IsPathSeparator (hd rest)
         \<or> \<not> ((rooted \<and> length out \<noteq> 1) \<or> (\<not> rooted \<and> length out \<noteq> 0)) then 0 else 1)"

lemma slashes_simps [simp]:
  "slashes [] = 0"
  "slashes (c # cs) = (if IsPathSeparator c then Suc (slashes cs) else slashes cs)"
  "slashes (xs @ ys) = slashes xs + slashes ys"
  by (simp_all add: slashes_def)

lemma slashes_take: "slashes (take k s) \<le> slashes s"
proof -
  have "slashes s = slashes (take k s) + slashes (drop k s)"
    by (metis append_take_drop_id slashes_simps(3))
  then show ?thesis by simp
qed

lemma slashes_takeWhile [simp]: "slashes (takeWhile (\<lambda>x. \<not> IsPathSeparator x) s) = 0"
  by (induction s) auto

lemma slashes_dropWhile [simp]: "slashes (dropWhile (\<lambda>x. \<not> IsPathSeparator x) s) = slashes s"
  by (induction s) auto

lemma trailing_Cons: "trailing (c # cs) = (if cs = [] then (if IsPathSeparator c then 1 else 0) else trailing cs)"
  by (simp add: trailing_def)

lemma trailing_dropWhile [simp]: "trailing (dropWhile (\<lambda>x. \<not> IsPathSeparator x) s) = trailing s"
proof (induction s)
  case Nil
  then show ?case by simp
next
  case (Cons a s)
  show ?case
  proof (cases "IsPathSeparator a")
    case True
    then show ?thesis by simp
  next
    case False
    show ?thesis
    proof (cases "s = []")
      case True
      with False show ?thesis by (simp add: trailing_def)
    next
      case ne: False
      with False Cons show ?thesis by (simp add: trailing_Cons)
    qed
  qed
qed

lemma credit_dropWhile [simp]: "credit rooted (dropWhile (\<lambda>x. \<not> IsPathSeparator x) s) out = 0"
  using hd_dropWhile [of "\<lambda>x. \<not> IsPathSeparator x" s] by (auto simp: credit_def)

lemma credit_le: "credit rooted rest out \<le> 1"
  by (simp add: credit_def)

lemma clean_loop_slashes:
  "slashes (clean_loop rooted rest out dotdot) + trailing rest
     \<le> slashes out + slashes rest + credit rooted rest out"
proof (induction rooted rest out dotdot rule: clean_loop.induct)
  case (1 rooted out dotdot)
  then show ?case by (simp add: trailing_def)
next
  case (2 rooted c cs out dotdot)
  show ?case
  proof (cases "IsPathSeparator c")
    case True
    with 2(1) credit_le [of rooted cs out] show ?thesis
      by (cases cs) (auto simp: trailing_Cons credit_def)
  next
    case nsep: False
    show ?thesis
    proof (cases "c = CHR ''.'' \<and> (cs = [] \<or> IsPathSeparator (hd cs))")
      case True
      with nsep 2(2) show ?thesis
        by (cases cs) (auto simp: trailing_Cons credit_def)
    next
      case ndot: False
      show ?thesis
      proof (cases "c = CHR ''.'' \<and> cs \<noteq> [] \<and> hd cs = CHR ''.''
              \<and> (tl cs = [] \<or> IsPathSeparator (hd (tl cs)))")
        case True
        then obtain cs' where cs: "cs = CHR ''.'' # cs'" and cs': "cs' = [] \<or> IsPathSeparator (hd cs')"
          by (cases cs) auto
        have cr: "credit rooted cs' out' = 0" for out'
          using cs' by (auto simp: credit_def)
        have tr: "trailing (c # cs) = trailing cs'"
          using True cs by (auto simp: trailing_Cons IsPathSeparator_def trailing_def)
        have sl: "slashes (c # cs) = slashes cs'"
          using True cs by (auto simp: IsPathSeparator_def)
        show ?thesis
        proof (cases "length out > dotdot")
          case bt: True
          from 2(3) [OF nsep ndot True bt]
          have "slashes (clean_loop rooted cs' (take (backtrack out dotdot (length out - 1)) out) dotdot) + trailing cs'
                \<le> slashes (take (backtrack out dotdot (length out - 1)) out) + slashes cs'"
            using cs cr by simp
          moreover have "clean_loop rooted (c # cs) out dotdot
             = clean_loop rooted cs' (take (backtrack out dotdot (length out - 1)) out) dotdot"
            using nsep ndot True bt cs by simp
          ultimately show ?thesis
            using slashes_take [of "backtrack out dotdot (length out - 1)" out] tr sl by simp
        next
          case nbt: False
          show ?thesis
          proof (cases rooted)
            case True
            from 2(5) [OF nsep ndot \<open>c = CHR ''.'' \<and> cs \<noteq> [] \<and> hd cs = CHR ''.''
              \<and> (tl cs = [] \<or> IsPathSeparator (hd (tl cs)))\<close> nbt] True
            have "slashes (clean_loop rooted cs' out dotdot) + trailing cs' \<le> slashes out + slashes cs'"
              using cs cr by simp
            moreover have "clean_loop rooted (c # cs) out dotdot = clean_loop rooted cs' out dotdot"
              using nsep ndot \<open>c = CHR ''.'' \<and> cs \<noteq> [] \<and> hd cs = CHR ''.''
              \<and> (tl cs = [] \<or> IsPathSeparator (hd (tl cs)))\<close> nbt cs True by simp
            ultimately show ?thesis using tr sl by simp
          next
            case False
            let ?out' = "(if length out > 0 then out @ ''/'' else out) @ ''..''"
            from 2(4) [OF nsep ndot \<open>c = CHR ''.'' \<and> cs \<noteq> [] \<and> hd cs = CHR ''.''
              \<and> (tl cs = [] \<or> IsPathSeparator (hd (tl cs)))\<close> nbt False]
            have "slashes (clean_loop rooted cs' ?out' (length ?out')) + trailing cs' \<le> slashes ?out' + slashes cs'"
              using cs cr by simp
            moreover have "clean_loop rooted (c # cs) out dotdot = clean_loop rooted cs' ?out' (length ?out')"
              using nsep ndot \<open>c = CHR ''.'' \<and> cs \<noteq> [] \<and> hd cs = CHR ''.''
              \<and> (tl cs = [] \<or> IsPathSeparator (hd (tl cs)))\<close> nbt cs False by simp
            moreover have "slashes ?out' \<le> slashes out + credit rooted (c # cs) out"
              using False nsep by (auto simp: credit_def IsPathSeparator_def)
            ultimately show ?thesis using tr sl by simp
          qed
        qed
      next
        case elem: False
        let ?out' = "(if (rooted \<and> length out \<noteq> 1) \<or> (\<not> rooted \<and> length out \<noteq> 0) then out @ ''/'' else out)
            @ takeWhile (\<lambda>x. \<not> IsPathSeparator x) (c # cs)"
        let ?rest' = "dropWhile (\<lambda>x. \<not> IsPathSeparator x) (c # cs)"
        from 2(6) [OF nsep ndot elem]
        have "slashes (clean_loop rooted ?rest' ?out' dotdot) + trailing ?rest' \<le> slashes ?out' + slashes ?rest'"
          by (simp only: credit_dropWhile add_0_right)
        moreover have "clean_loop rooted (c # cs) out dotdot = clean_loop rooted ?rest' ?out' dotdot"
          by (simp only: clean_loop.simps(2) nsep ndot elem if_False)
        moreover have "slashes ?out' \<le> slashes out + credit rooted (c # cs) out"
          using nsep by (auto simp: credit_def simp del: takeWhile.simps)
        ultimately show ?thesis
          by (simp only: trailing_dropWhile slashes_dropWhile)
      qed
    qed
  qed
qed

lemma scan_sep_le: "scan_sep path n \<le> n"
  by (induction n) auto

lemma scan_sep_last:
  "n \<le> length path \<Longrightarrow> scan_sep path n = 0 \<or> IsPathSeparator (last (take (scan_sep path n) path))"
proof (induction n)
  case 0
  then show ?case by simp
next
  case (Suc n)
  show ?case
  proof (cases "IsPathSeparator (path ! n)")
    case True
    moreover have "last (take (Suc n) path) = path ! n"
      using Suc.prems by (simp add: take_Suc_conv_app_nth)
    ultimately show ?thesis by simp
  next
    case False
    with Suc show ?thesis by simp
  qed
qed

lemma Clean_trailing:
  assumes "s \<noteq> []" and "IsPathSeparator (last s)"
  shows "Clean s = ''.'' \<or> Clean s = ''/'' \<or> slashes (Clean s) < slashes s"
proof (cases "IsPathSeparator (hd s)")
  case True
  then obtain cs where s: "s = CHR ''/'' # cs"
    using assms(1) by (cases s) (auto simp: IsPathSeparator_def)
  let ?out = "clean_loop True cs ''/'' 1"
  have C: "Clean s = (if ?out = [] then ''.'' else ?out)"
    using s by (simp add: Clean_def IsPathSeparator_def)
  show ?thesis
  proof (cases "cs = []")
    case True
    with C show ?thesis by simp
  next
    case False
    then have "trailing cs = 1"
      using assms(2) s by (simp add: trailing_def)
    moreover have "slashes ?out + trailing cs \<le> slashes ''/'' + slashes cs + credit True cs ''/''"
      by (rule clean_loop_slashes)
    moreover have "credit True cs ''/'' = 0"
      by (simp add: credit_def)
    ultimately have "slashes ?out < slashes s"
      using s by (simp add: IsPathSeparator_def)
    with C show ?thesis by auto
  qed
next
  case False
  let ?out = "clean_loop False s [] 0"
  have C: "Clean s = (if ?out = [] then ''.'' else ?out)"
    using False assms(1) by (simp add: Clean_def)
  have "trailing s = 1"
    using assms by (simp add: trailing_def)
  moreover have "slashes ?out + trailing s \<le> slashes [] + slashes s + credit False s []"
    by (rule clean_loop_slashes)
  moreover have "credit False s [] = 0"
    by (simp add: credit_def)
  ultimately have "slashes ?out < slashes s"
    by simp
  with C show ?thesis by auto
qed

lemma Dir_smaller: "Dir p = ''.'' \<or> Dir p = ''/'' \<or> slashes (Dir p) < slashes p"
proof (cases "scan_sep p (length p) = 0")
  case True
  then show ?thesis by (simp add: Dir_def Clean_def)
next
  case False
  let ?pre = "take (scan_sep p (length p)) p"
  have ne: "?pre \<noteq> []"
    using False by (cases p) auto
  moreover have "IsPathSeparator (last ?pre)"
    using scan_sep_last [of "length p" p] False by simp
  ultimately have "Clean ?pre = ''.'' \<or> Clean ?pre = ''/'' \<or> slashes (Clean ?pre) < slashes ?pre"
    by (rule Clean_trailing)
  moreover have "slashes ?pre \<le> slashes p"
    by (rule slashes_take)
  ultimately show ?thesis
    unfolding Dir_def by linarith
qed

lemma Dir_dot [simp]: "Dir ''.'' = ''.''"
  by (simp add: Dir_def Clean_def IsPathSeparator_def)

lemma Dir_root [simp]: "Dir ''/'' = ''/''"
  by (simp add: Dir_def Clean_def IsPathSeparator_def)

definition rank :: "string \<Rightarrow> nat" where
  "rank p = (if p = ''.'' \<or> p = ''/'' then 0 else Suc (slashes p))"

lemma Dir_rank: "Dir p \<noteq> p \<Longrightarrow> rank (Dir p) < rank p"
proof -
  assume ne: "Dir p \<noteq> p"
  then have p: "p \<noteq> ''.''" "p \<noteq> ''/''"
    by auto
  from Dir_smaller [of p] show ?thesis
  proof (elim disjE)
    assume "slashes (Dir p) < slashes p"
    then show ?thesis using p by (simp add: rank_def)
  qed (use p in \<open>simp_all add: rank_def\<close>)
qed

section \<open>AddFile\<close>

text \<open>
  The loop of \<^verbatim>\<open>AddFile\<close> with its two variables \<open>dir\<close> and \<open>ldir\<close>: the parent of
  \<open>dir\<close> is computed, the loop is left when it equals \<open>ldir\<close>, and otherwise it
  receives the bytes and becomes both \<open>dir\<close> and \<open>ldir\<close>.
\<close>

function AddFile_loop :: "Bloat \<Rightarrow> int64 \<Rightarrow> string \<Rightarrow> string \<Rightarrow> Bloat" where
  "AddFile_loop b bytes dir ldir =
     (if ldir = Dir dir then b
      else AddFile_loop (AddBloat b (Dir dir) bytes) bytes (Dir dir) (Dir dir))"
  by pat_completeness auto
termination
proof (relation "measure (\<lambda>(b, bytes, dir, ldir). 2 * rank dir + (if dir = ldir then 0 else 1))")
  fix b :: Bloat and bytes :: int64 and dir ldir :: string
  assume "ldir \<noteq> Dir dir"
  then have "2 * rank (Dir dir) < 2 * rank dir + (if dir = ldir then 0 else 1)"
    using Dir_rank [of dir] by (cases "Dir dir = dir") auto
  then show "((AddBloat b (Dir dir) bytes, bytes, Dir dir, Dir dir), b, bytes, dir, ldir)
      \<in> measure (\<lambda>(b, bytes, dir, ldir). 2 * rank dir + (if dir = ldir then 0 else 1))"
    by simp
qed simp

definition AddFile :: "Bloat \<Rightarrow> string \<Rightarrow> int64 \<Rightarrow> Bloat" where
  "AddFile b path bytes = AddFile_loop b bytes path path"

section \<open>Sort\<close>

text \<open>
  The comparison given to \<^verbatim>\<open>sort.Slice\<close>: \<open>b.Dirs[x].Bytes > b.Dirs[y].Bytes\<close>, on
  signed 64-bit values.
\<close>

definition less_Dirs :: "DirInfo \<Rightarrow> DirInfo \<Rightarrow> bool" where
  "less_Dirs x y = (sint (Bytes x) > sint (Bytes y))"

text \<open>
  \<^verbatim>\<open>sort.Slice\<close> belongs to the standard library. It reorders the slice by the given
  \<open>less\<close> function and is not stable. It is modelled by insertion sort driven by the
  same function, the algorithm the library runs on short slices: each element moves
  towards the front past every element it is \<open>less\<close> than. \<open>sift\<close> works on the
  sorted prefix in reverse order.
\<close>

fun sift :: "('a \<Rightarrow> 'a \<Rightarrow> bool) \<Rightarrow> 'a \<Rightarrow> 'a list \<Rightarrow> 'a list" where
  "sift lt x [] = [x]"
| "sift lt x (y # rs) = (if lt x y then y # sift lt x rs else x # y # rs)"

definition insertionSort :: "('a \<Rightarrow> 'a \<Rightarrow> bool) \<Rightarrow> 'a list \<Rightarrow> 'a list" where
  "insertionSort lt xs = rev (foldl (\<lambda>rs x. sift lt x rs) [] xs)"

text \<open>
  \<^verbatim>\<open>for _, info := range b.DirMap\<close> appends the records in the order in which the
  runtime yields the keys, which Go leaves unspecified. The order is a parameter: the
  list of keys as the iteration visits them.
\<close>

fun range_DirMap :: "(string \<rightharpoonup> DirInfo) \<Rightarrow> string list \<Rightarrow> DirInfo list \<Rightarrow> DirInfo list" where
  "range_DirMap m [] dirs = dirs"
| "range_DirMap m (k # ks) dirs =
     (case m k of None \<Rightarrow> range_DirMap m ks dirs | Some info \<Rightarrow> range_DirMap m ks (dirs @ [info]))"

definition Sort :: "string list \<Rightarrow> Bloat \<Rightarrow> Bloat" where
  "Sort order b = b\<lparr>Dirs := insertionSort less_Dirs (range_DirMap (DirMap b) order [])\<rparr>"

section \<open>Scan, Report and main\<close>

text \<open>
  What the program writes: a line on standard output or on standard error, without its
  final newline.
\<close>

datatype line = Stdout string | Stderr string

text \<open>
  \<^verbatim>\<open>os.FileInfo\<close>: the size that \<^verbatim>\<open>Size()\<close> reports, and whether the entry is a
  directory. \<^verbatim>\<open>Scan\<close> reads the size only.
\<close>

record FileInfo =
  Size :: int64
  IsDir :: bool

text \<open>
  One call of the function that \<^verbatim>\<open>Scan\<close> gives to \<^verbatim>\<open>filepath.Walk\<close>: the path, the
  file information and the error of the entry, if it could not be visited.
\<close>

record visit =
  vpath :: string
  vinfo :: FileInfo
  verr :: "string option"

text \<open>
  The collaborators outside the repository. \<open>Walk root\<close> is the sequence of calls that
  \<^verbatim>\<open>filepath.Walk\<close> makes for a root as long as the function it calls returns
  \<open>nil\<close>; \<open>AbsPath\<close> and \<open>RelPath\<close> are \<^verbatim>\<open>filepath.Abs\<close> and \<^verbatim>\<open>filepath.Rel\<close>, which
  answer with an error text (\<open>Inl\<close>) or a path (\<open>Inr\<close>); \<open>FormatBytes\<close> is
  \<^verbatim>\<open>bytesize.FormatBytes(_, 10, 0)\<close>.
\<close>

record env =
  Walk :: "string \<Rightarrow> visit list"
  AbsPath :: "string \<Rightarrow> string + string"
  RelPath :: "string \<Rightarrow> string \<Rightarrow> string + string"
  FormatBytes :: "int64 \<Rightarrow> string"

text \<open>A call returns, or it panics; a panic keeps the lines written before it.\<close>

datatype 'a run = Returned 'a | Panic "line list"

type_synonym state = "Bloat \<times> line list"

text \<open>The key of an entry: the absolute path in absolute mode, else the path relative to the root.\<close>

definition resolve :: "env \<Rightarrow> bool \<Rightarrow> string \<Rightarrow> string \<Rightarrow> string + string" where
  "resolve e absmode basedir path =
     (if absmode then AbsPath e path else RelPath e basedir path)"

text \<open>
  The function literal of \<^verbatim>\<open>Scan\<close>. An entry with an error returns that error. Else
  the path is echoed and resolved; a failure writes \<open>can't process\<close> and panics (the
  source panics with \<open>err\<close>, which is \<open>nil\<close> at that point: the program has no
  \<open>recover\<close>, so the process crashes whatever the value); otherwise \<^verbatim>\<open>AddFile\<close>
  receives the key and the size, whatever the type of the entry, and the result is
  \<open>nil\<close>.
\<close>

definition walkFn :: "env \<Rightarrow> string \<Rightarrow> visit \<Rightarrow> state \<Rightarrow> (string option \<times> state) run" where
  "walkFn e basedir v st =
     (case st of (b, out) \<Rightarrow>
        (case verr v of
           Some err \<Rightarrow> Returned (Some err, (b, out))
         | None \<Rightarrow>
             (case resolve e (Abs b) basedir (vpath v) of
                Inl perr \<Rightarrow>
                  Panic (out @ [Stdout (vpath v),
                                Stderr (''can't process '' @ vpath v @ '': '' @ perr)])
              | Inr fdir \<Rightarrow>
                  Returned (None, (AddFile b fdir (Size (vinfo v)), out @ [Stdout (vpath v)])))))"

text \<open>
  \<^verbatim>\<open>filepath.Walk\<close> stops at the first call that returns an error, and returns it.
  (It treats the markers \<open>SkipDir\<close> and \<open>SkipAll\<close> differently; the function of
  \<^verbatim>\<open>Scan\<close> returns only the error it was given, which is that of \<open>lstat\<close> or of
  reading a directory, never a marker.)
\<close>

fun walk :: "env \<Rightarrow> string \<Rightarrow> visit list \<Rightarrow> state \<Rightarrow> (string option \<times> state) run" where
  "walk e basedir [] st = Returned (None, st)"
| "walk e basedir (v # vs) st =
     (case walkFn e basedir v st of
        Panic out \<Rightarrow> Panic out
      | Returned (Some err, st') \<Rightarrow> Returned (Some err, st')
      | Returned (None, st') \<Rightarrow> walk e basedir vs st')"

text \<open>\<^verbatim>\<open>Scan\<close>: an error of the walk is written to standard error, and \<^verbatim>\<open>Scan\<close> returns.\<close>

definition Scan :: "env \<Rightarrow> string \<Rightarrow> state \<Rightarrow> state run" where
  "Scan e basedir st =
     (case walk e basedir (Walk e basedir) st of
        Panic out \<Rightarrow> Panic out
      | Returned (None, st') \<Rightarrow> Returned st'
      | Returned (Some werr, (b, out)) \<Rightarrow>
          Returned (b, out @ [Stderr (''error scanning '' @ basedir @ '': '' @ werr)]))"

text \<open>\<^verbatim>\<open>Report\<close> prints each record of \<open>Dirs\<close> with the format \<open>%6s %s\<close>.\<close>

definition pad_left :: "nat \<Rightarrow> string \<Rightarrow> string" where
  "pad_left n s = replicate (n - length s) CHR '' '' @ s"

definition Report :: "env \<Rightarrow> state \<Rightarrow> line list" where
  "Report e st =
     (case st of (b, out) \<Rightarrow>
        out @ map (\<lambda>info. Stdout (pad_left 6 (FormatBytes e (Bytes info)) @ '' '' @ Path info)) (Dirs b))"

text \<open>The loop of \<^verbatim>\<open>main\<close> over the arguments; a panic ends it.\<close>

fun scan_roots :: "env \<Rightarrow> string list \<Rightarrow> state \<Rightarrow> state run" where
  "scan_roots e [] st = Returned st"
| "scan_roots e (arg # args) st =
     (case Scan e arg st of Panic out \<Rightarrow> Panic out | Returned st' \<Rightarrow> scan_roots e args st')"

text \<open>
  \<^verbatim>\<open>main\<close> on \<^verbatim>\<open>os.Args\<close>: the usage text (its wording is not modelled), or the scans
  followed by \<^verbatim>\<open>Sort\<close> and \<^verbatim>\<open>Report\<close>, or the crash of a panic. \<open>order\<close> is the order
  of the map iteration in \<^verbatim>\<open>Sort\<close>.
\<close>

datatype outcome = Usage | Exit "line list" | Crash "line list"

definition is_help :: "string \<Rightarrow> bool" where
  "is_help helpp = (helpp = ''--help'' \<or> helpp = ''-h'' \<or> helpp = ''/?'')"

fun main :: "env \<Rightarrow> string list \<Rightarrow> string list \<Rightarrow> outcome" where
  "main e order [] = Usage"
| "main e order [prog] = Usage"
| "main e order (prog # helpp # rest) =
     (if is_help helpp then Usage
      else (case scan_roots e (helpp # rest) (NewBloat (length (prog # helpp # rest) > 2), []) of
              Panic out \<Rightarrow> Crash out
            | Returned (b, out) \<Rightarrow> Exit (Report e (Sort order b, out))))"

chapter \<open>The notions of the claims\<close>

section \<open>Ancestors, totals, passes and depth\<close>

text \<open>
  The ancestors of a path: the values \<open>Dir p\<close>, \<open>Dir (Dir p)\<close>, ... up to the fixed
  point, each a value that differs from the one it was computed from.
\<close>

function parent_chain :: "string \<Rightarrow> string list" where
  "parent_chain p = (if Dir p = p then [] else Dir p # parent_chain (Dir p))"
  by pat_completeness auto
termination
  by (relation "measure rank") (auto simp: Dir_rank)

text \<open>
  Both recursions are unfolded by hand below, one step at a time.
\<close>

declare AddFile_loop.simps [simp del] parent_chain.simps [simp del]

text \<open>The total of a key: the bytes of its record, and 0 for a key with no record.\<close>

definition total :: "Bloat \<Rightarrow> string \<Rightarrow> int64" where
  "total b k = (case DirMap b k of None \<Rightarrow> 0 | Some info \<Rightarrow> Bytes info)"

text \<open>
  A counter for the loop of \<^verbatim>\<open>AddFile\<close>: how often its body is entered, the pass that
  leaves the loop included. It follows the control of \<open>AddFile_loop\<close>.
\<close>

function AddFile_passes :: "string \<Rightarrow> string \<Rightarrow> nat" where
  "AddFile_passes dir ldir =
     (if ldir = Dir dir then 1 else Suc (AddFile_passes (Dir dir) (Dir dir)))"
  by pat_completeness auto
termination
proof (relation "measure (\<lambda>(dir, ldir). 2 * rank dir + (if dir = ldir then 0 else 1))")
  fix dir ldir :: string
  assume "ldir \<noteq> Dir dir"
  then have "2 * rank (Dir dir) < 2 * rank dir + (if dir = ldir then 0 else 1)"
    using Dir_rank [of dir] by (cases "Dir dir = dir") auto
  then show "((Dir dir, Dir dir), dir, ldir)
      \<in> measure (\<lambda>(dir, ldir). 2 * rank dir + (if dir = ldir then 0 else 1))"
    by simp
qed simp

declare AddFile_passes.simps [simp del]

text \<open>
  The components of a path are the pieces between its separators (as
  \<^verbatim>\<open>strings.Split(p, "/")\<close> gives them, empty pieces included); the depth of a path is
  their number.
\<close>

fun components :: "string \<Rightarrow> string list" where
  "components [] = [[]]"
| "components (c # cs) =
     (if IsPathSeparator c then [] # components cs
      else (case components cs of [] \<Rightarrow> [[c]] | x # xs \<Rightarrow> (c # x) # xs))"


section \<open>Orders of the map iteration, and the invariant of the map\<close>

text \<open>An order the runtime can choose: every key of the map, once.\<close>

definition range_order :: "Bloat \<Rightarrow> string list \<Rightarrow> bool" where
  "range_order b order = (distinct order \<and> set order = dom (DirMap b))"

text \<open>Every record of the map has as its path the key it is stored under.\<close>

definition keys_match :: "Bloat \<Rightarrow> bool" where
  "keys_match b = (\<forall>k info. DirMap b k = Some info \<longrightarrow> Path info = k)"

chapter \<open>Properties\<close>

section \<open>Claims about AddBloat\<close>

text \<open>
  C7. On a key that is not yet in the map, \<^verbatim>\<open>AddBloat\<close> of \<open>n\<close> bytes gives the same
  state as \<^verbatim>\<open>AddBloat\<close> of \<open>0\<close> bytes (which creates the zero record) followed by
  \<^verbatim>\<open>AddBloat\<close> of \<open>n\<close> bytes.
\<close>

theorem AddBloat_creation:
  "DirMap b dir = None \<Longrightarrow> AddBloat (AddBloat b dir 0) dir n = AddBloat b dir n"
  by (simp add: AddBloat_def)

theorem AddBloat_creation_witness:
  "DirMap (NewBloat False) ''x'' = None
   \<and> AddBloat (AddBloat (NewBloat False) ''x'' 0) ''x'' 10 = AddBloat (NewBloat False) ''x'' 10"
proof -
  have h: "DirMap (NewBloat False) ''x'' = None"
    by (simp add: NewBloat_def)
  show ?thesis
    using h AddBloat_creation [OF h, of 10] by simp
qed

section \<open>The walk of AddFile\<close>

subsection \<open>The walk and the chain of parents\<close>



lemma AddFile_chain: "AddFile_loop b s p p = foldl (\<lambda>b d. AddBloat b d s) b (parent_chain p)"
proof (induction p arbitrary: b rule: parent_chain.induct)
  case (1 p)
  show ?case
  proof (cases "Dir p = p")
    case True
    then show ?thesis
      by (simp add: AddFile_loop.simps [of b s p p] parent_chain.simps [of p])
  next
    case False
    then have "AddFile_loop b s p p = AddFile_loop (AddBloat b (Dir p) s) s (Dir p) (Dir p)"
      by (subst AddFile_loop.simps) auto
    also have "\<dots> = foldl (\<lambda>b d. AddBloat b d s) (AddBloat b (Dir p) s) (parent_chain (Dir p))"
      using False by (rule 1)
    finally show ?thesis
      using False by (simp add: parent_chain.simps [of p])
  qed
qed

lemma passes_chain: "AddFile_passes p p = Suc (length (parent_chain p))"
proof (induction p rule: parent_chain.induct)
  case (1 p)
  show ?case
  proof (cases "Dir p = p")
    case True
    then show ?thesis
      by (simp add: AddFile_passes.simps [of p p] parent_chain.simps [of p])
  next
    case False
    then have "AddFile_passes p p = Suc (AddFile_passes (Dir p) (Dir p))"
      by (subst AddFile_passes.simps) auto
    with False 1 show ?thesis
      by (simp add: parent_chain.simps [of p])
  qed
qed

lemma parent_chain_rank: "x \<in> set (parent_chain p) \<Longrightarrow> rank x < rank p"
proof (induction p rule: parent_chain.induct)
  case (1 p)
  show ?case
  proof (cases "Dir p = p")
    case True
    with 1(2) show ?thesis by (simp add: parent_chain.simps [of p])
  next
    case False
    with 1(2) have "x = Dir p \<or> x \<in> set (parent_chain (Dir p))"
      by (simp add: parent_chain.simps [of p])
    then show ?thesis
      using 1(1) [OF False] Dir_rank [OF False] by auto
  qed
qed

lemma parent_chain_distinct: "distinct (parent_chain p)"
proof (induction p rule: parent_chain.induct)
  case (1 p)
  show ?case
  proof (cases "Dir p = p")
    case True
    then show ?thesis by (simp add: parent_chain.simps [of p])
  next
    case False
    have "Dir p \<notin> set (parent_chain (Dir p))"
      using parent_chain_rank [of "Dir p" "Dir p"] by auto
    with False 1 show ?thesis
      by (simp add: parent_chain.simps [of p])
  qed
qed



lemma parent_chain_iterates:
  "set (parent_chain p) = {(Dir ^^ i) p | i. 0 < i \<and> (Dir ^^ i) p \<noteq> (Dir ^^ (i - 1)) p}"
proof (induction p rule: parent_chain.induct)
  case (1 p)
  show ?case
  proof (cases "Dir p = p")
    case True
    then have "(Dir ^^ i) p = p" for i
      by (induction i) auto
    with True show ?thesis
      by (simp add: parent_chain.simps [of p])
  next
    case False
    have step: "(Dir ^^ Suc i) p = (Dir ^^ i) (Dir p)" for i
      by (simp add: funpow_swap1)
    have "{(Dir ^^ i) p | i. 0 < i \<and> (Dir ^^ i) p \<noteq> (Dir ^^ (i - 1)) p}
          = insert (Dir p) {(Dir ^^ i) (Dir p) | i. 0 < i \<and> (Dir ^^ i) (Dir p) \<noteq> (Dir ^^ (i - 1)) (Dir p)}"
      (is "?L = insert _ ?R")
    proof (intro set_eqI iffI)
      fix x assume "x \<in> ?L"
      then obtain i where i: "0 < i" "x = (Dir ^^ i) p" "(Dir ^^ i) p \<noteq> (Dir ^^ (i - 1)) p"
        by auto
      show "x \<in> insert (Dir p) ?R"
      proof (cases i)
        case 0
        with i show ?thesis by simp
      next
        case (Suc j)
        show ?thesis
        proof (cases j)
          case 0
          with Suc i show ?thesis by simp
        next
          case (Suc k)
          with \<open>i = Suc j\<close> i have "x = (Dir ^^ j) (Dir p)" "(Dir ^^ j) (Dir p) \<noteq> (Dir ^^ (j - 1)) (Dir p)" "0 < j"
            using step [of j] step [of k] by auto
          then show ?thesis by blast
        qed
      qed
    next
      fix x assume "x \<in> insert (Dir p) ?R"
      then consider "x = Dir p" | j where "0 < j" "x = (Dir ^^ j) (Dir p)" "(Dir ^^ j) (Dir p) \<noteq> (Dir ^^ (j - 1)) (Dir p)"
        by auto
      then show "x \<in> ?L"
      proof cases
        case 1
        with False have "0 < Suc 0 \<and> x = (Dir ^^ Suc 0) p \<and> (Dir ^^ Suc 0) p \<noteq> (Dir ^^ (Suc 0 - 1)) p"
          by simp
        then show ?thesis by blast
      next
        case 2
        then obtain k where k: "j = Suc k" by (cases j) auto
        have "0 < Suc j \<and> x = (Dir ^^ Suc j) p \<and> (Dir ^^ Suc j) p \<noteq> (Dir ^^ (Suc j - 1)) p"
          using 2 k step [of j] step [of k] by simp
        then show ?thesis by blast
      qed
    qed
    with False 1 show ?thesis
      by (simp add: parent_chain.simps [of p])
  qed
qed

subsection \<open>What AddBloat and a run of AddBloat change\<close>

lemma AddBloat_lookup:
  "DirMap (AddBloat b d s) k =
     (if k = d then Some \<lparr>Path = (case DirMap b d of None \<Rightarrow> d | Some info \<Rightarrow> Path info),
                          Bytes = total b d + s\<rparr>
      else DirMap b k)"
  by (auto simp: AddBloat_def total_def split: option.splits)

lemma total_AddBloat: "total (AddBloat b d s) k = (if k = d then total b k + s else total b k)"
  by (simp add: total_def AddBloat_lookup)

lemma foldl_AddBloat_other:
  "k \<notin> set ds \<Longrightarrow> DirMap (foldl (\<lambda>b d. AddBloat b d s) b ds) k = DirMap b k"
  by (induction ds arbitrary: b) (auto simp: AddBloat_lookup)

lemma foldl_AddBloat_total:
  "distinct ds \<Longrightarrow> total (foldl (\<lambda>b d. AddBloat b d s) b ds) k
     = (if k \<in> set ds then total b k + s else total b k)"
proof (induction ds arbitrary: b)
  case Nil
  then show ?case by simp
next
  case (Cons d ds)
  then show ?case
    by (auto simp: total_AddBloat)
qed

lemma foldl_AddBloat_dom:
  "dom (DirMap (foldl (\<lambda>b d. AddBloat b d s) b ds)) = dom (DirMap b) \<union> set ds"
  by (induction ds arbitrary: b) (auto simp: AddBloat_lookup split: if_splits)

section \<open>Claims about AddFile\<close>

text \<open>
  C1. \<^verbatim>\<open>AddFile(p, s)\<close> adds exactly \<open>s\<close> to every ancestor of \<open>p\<close>, and changes no
  other key. The ancestors are the directories of the parent chain \<open>parent_chain p\<close>:
  by \<open>parent_chain_iterates\<close> the values \<open>Dir p\<close>, \<open>Dir (Dir p)\<close>, ... that differ
  from the value they were computed from, so the path itself is not among them; by
  \<open>parent_chain_distinct\<close> no directory occurs twice. An ancestor has a record
  afterwards whose bytes are its former total plus \<open>s\<close> (in 64-bit arithmetic); any
  other key has the record it had, or none as before.
\<close>

theorem AddFile_ancestor_sum:
  "(k \<in> set (parent_chain p) \<longrightarrow>
      (\<exists>info. DirMap (AddFile b p s) k = Some info \<and> Bytes info = total b k + s))
   \<and> (k \<notin> set (parent_chain p) \<longrightarrow> DirMap (AddFile b p s) k = DirMap b k)"
proof (intro conjI impI)
  assume k: "k \<in> set (parent_chain p)"
  have "total (AddFile b p s) k = total b k + s"
    using k by (simp add: AddFile_def AddFile_chain foldl_AddBloat_total parent_chain_distinct)
  moreover have "k \<in> dom (DirMap (AddFile b p s))"
    using k by (simp add: AddFile_def AddFile_chain foldl_AddBloat_dom)
  ultimately show "\<exists>info. DirMap (AddFile b p s) k = Some info \<and> Bytes info = total b k + s"
    by (auto simp: total_def)
next
  assume "k \<notin> set (parent_chain p)"
  then show "DirMap (AddFile b p s) k = DirMap b k"
    by (simp add: AddFile_def AddFile_chain foldl_AddBloat_other)
qed

lemma chain_ex: "parent_chain ''a/b/f'' = [''a/b'', ''a'', ''.'']"
  by code_simp

theorem AddFile_ancestor_sum_witness:
  "''a'' \<in> set (parent_chain ''a/b/f'')
   \<and> (\<exists>info. DirMap (AddFile (AddBloat (NewBloat False) ''a'' 7) ''a/b/f'' 5) ''a'' = Some info
         \<and> Bytes info = total (AddBloat (NewBloat False) ''a'' 7) ''a'' + 5)
   \<and> ''a/b/f'' \<notin> set (parent_chain ''a/b/f'')
   \<and> DirMap (AddFile (AddBloat (NewBloat False) ''a'' 7) ''a/b/f'' 5) ''a/b/f''
       = DirMap (AddBloat (NewBloat False) ''a'' 7) ''a/b/f''"
  using AddFile_ancestor_sum [of "''a''" "''a/b/f''" "AddBloat (NewBloat False) ''a'' 7" 5]
    AddFile_ancestor_sum [of "''a/b/f''" "''a/b/f''" "AddBloat (NewBloat False) ''a'' 7" 5]
  by (simp add: chain_ex)



lemma chain_root_level: "Dir p \<noteq> p \<Longrightarrow> Dir (Dir p) = Dir p \<Longrightarrow> parent_chain p = [Dir p]"
  by (simp add: parent_chain.simps [of p] parent_chain.simps [of "Dir p"])

text \<open>
  C3, as stated, fails: \<^verbatim>\<open>AddFile\<close> at a fixed point of \<^verbatim>\<open>Dir\<close> leaves the loop in the
  first pass, before any \<^verbatim>\<open>AddBloat\<close>. With the root \<open>/\<close> as the path nothing is
  added to \<open>/\<close>: the accumulator is the empty one it was.
\<close>

theorem AddFile_fixed_point_counterexample:
  "Dir ''/'' = ''/'' \<and> AddFile (NewBloat False) ''/'' 5 = NewBloat False
   \<and> DirMap (AddFile (NewBloat False) ''/'' 5) ''/'' = None"
  by (simp add: AddFile_def AddFile_loop.simps [of _ _ "''/''"] NewBloat_def)

text \<open>
  C3, amended. \<^verbatim>\<open>AddFile(p, s)\<close> with \<open>p\<close> directly in a fixed point of the parent
  function (\<open>Dir p\<close> differs from \<open>p\<close> and is its own parent, as for \<open>/f\<close> or \<open>f\<close>)
  adds \<open>s\<close> to the record of the fixed point exactly once, in the first pass, and the
  loop is left in the second. With \<open>p\<close> itself a fixed point (\<open>Dir p = p\<close>, as for \<open>/\<close>
  or \<open>.\<close>) nothing is added: the accumulator is unchanged, and the loop is left in its
  first pass.
\<close>

theorem AddFile_fixed_point:
  "(Dir p = p \<longrightarrow> AddFile b p s = b \<and> AddFile_passes p p = 1)
   \<and> (Dir p \<noteq> p \<and> Dir (Dir p) = Dir p \<longrightarrow>
        AddFile b p s = AddBloat b (Dir p) s \<and> AddFile_passes p p = 2)"
proof (intro conjI impI)
  assume "Dir p = p"
  then show "AddFile b p s = b" and "AddFile_passes p p = 1"
    by (simp_all add: AddFile_def AddFile_loop.simps [of b s p p] AddFile_passes.simps [of p p])
next
  assume "Dir p \<noteq> p \<and> Dir (Dir p) = Dir p"
  then show "AddFile b p s = AddBloat b (Dir p) s" and "AddFile_passes p p = 2"
    by (simp_all add: AddFile_def AddFile_chain passes_chain chain_root_level)
qed

lemma Dir_root_file: "Dir ''/f'' = ''/''"
  by code_simp

theorem AddFile_fixed_point_witness:
  "Dir ''.'' = ''.''
   \<and> AddFile (AddBloat (NewBloat False) ''.'' 7) ''.'' 5 = AddBloat (NewBloat False) ''.'' 7
   \<and> AddFile_passes ''.'' ''.'' = 1
   \<and> Dir ''/f'' \<noteq> ''/f'' \<and> Dir (Dir ''/f'') = Dir ''/f''
   \<and> AddFile (NewBloat False) ''/f'' 5 = AddBloat (NewBloat False) ''/'' 5
   \<and> AddFile_passes ''/f'' ''/f'' = 2"
  using AddFile_fixed_point [of "''.''" "AddBloat (NewBloat False) ''.'' 7" 5]
    AddFile_fixed_point [of "''/f''" "NewBloat False" 5]
  by (simp add: Dir_root_file)



section \<open>Sort sorts\<close>

lemma set_sift [simp]: "set (sift lt x rs) = insert x (set rs)"
  by (induction rs) auto

lemma length_sift [simp]: "length (sift lt x rs) = Suc (length rs)"
  by (induction rs) auto

lemma sorted_sift:
  "sorted (map f rs) \<Longrightarrow> sorted (map f (sift (\<lambda>a b. f a > f b) x rs))"
  for f :: "'a \<Rightarrow> 'b::linorder"
  by (induction rs) (auto simp: less_imp_le)

lemma sorted_foldl_sift:
  "sorted (map f rs) \<Longrightarrow> sorted (map f (foldl (\<lambda>rs x. sift (\<lambda>a b. f a > f b) x rs) rs xs))"
  for f :: "'a \<Rightarrow> 'b::linorder"
  by (induction xs arbitrary: rs) (auto simp: sorted_sift)

lemma set_foldl_sift: "set (foldl (\<lambda>rs x. sift lt x rs) rs xs) = set rs \<union> set xs"
  by (induction xs arbitrary: rs) auto

lemma length_foldl_sift: "length (foldl (\<lambda>rs x. sift lt x rs) rs xs) = length rs + length xs"
  by (induction xs arbitrary: rs) auto

lemma insertionSort_sorted:
  "sorted (rev (map f (insertionSort (\<lambda>a b. f a > f b) xs)))"
  for f :: "'a \<Rightarrow> 'b::linorder"
  using sorted_foldl_sift [of f "[]" xs] by (simp add: insertionSort_def rev_map)

lemma insertionSort_set [simp]: "set (insertionSort lt xs) = set xs"
  by (simp add: insertionSort_def set_foldl_sift)

lemma insertionSort_length [simp]: "length (insertionSort lt xs) = length xs"
  by (simp add: insertionSort_def length_foldl_sift)

lemma Sort_sorted: "sorted (rev (map (\<lambda>d. sint (Bytes d)) (Dirs (Sort order b))))"
proof -
  have eq: "less_Dirs = (\<lambda>a b. sint (Bytes a) > sint (Bytes b))"
    by (intro ext) (simp add: less_Dirs_def)
  have "sorted (rev (map (\<lambda>d. sint (Bytes d)) (insertionSort less_Dirs xs)))" for xs
    unfolding eq by (rule insertionSort_sorted)
  then show ?thesis
    by (simp add: Sort_def)
qed

text \<open>
  C5. After \<^verbatim>\<open>Sort\<close>, on any accumulator and for any order of the map iteration, the
  bytes at position \<open>i\<close> of \<open>Dirs\<close> are greater than or equal to the bytes at position
  \<open>i + 1\<close>, as signed values. By \<open>Sort_snapshot\<close> the slice holds the records of the
  map.
\<close>

theorem Sort_descending:
  "Suc i < length (Dirs (Sort order b)) \<Longrightarrow>
     sint (Bytes (Dirs (Sort order b) ! Suc i)) \<le> sint (Bytes (Dirs (Sort order b) ! i))"
proof -
  assume i: "Suc i < length (Dirs (Sort order b))"
  let ?ds = "map (\<lambda>d. sint (Bytes d)) (Dirs (Sort order b))"
  let ?n = "length ?ds"
  have "sorted (rev ?ds)" by (rule Sort_sorted)
  moreover have "?n - Suc (Suc i) \<le> ?n - Suc i" by simp
  moreover have "?n - Suc i < length (rev ?ds)" using i by simp
  ultimately have "rev ?ds ! (?n - Suc (Suc i)) \<le> rev ?ds ! (?n - Suc i)"
    by (rule sorted_nth_mono)
  then show ?thesis
    using i by (simp add: rev_nth)
qed

lemma Sort_snapshot:
  "range_order b order \<Longrightarrow> set (Dirs (Sort order b)) = ran (DirMap b)
     \<and> length (Dirs (Sort order b)) = card (dom (DirMap b))"
proof -
  assume ro: "range_order b order"
  have len: "set ks \<subseteq> dom m \<Longrightarrow> length (range_DirMap m ks dirs) = length dirs + length ks"
    for ks :: "string list" and m :: "string \<rightharpoonup> DirInfo" and dirs
    by (induction ks arbitrary: dirs) (auto split: option.splits)
  have st: "set (range_DirMap m ks dirs) = set dirs \<union> {info. \<exists>k \<in> set ks. m k = Some info}"
    for ks :: "string list" and m :: "string \<rightharpoonup> DirInfo" and dirs
    by (induction ks arbitrary: dirs) (auto split: option.splits)
  have "set (range_DirMap (DirMap b) order []) = ran (DirMap b)"
    using ro by (auto simp: range_order_def st ran_def dom_def)
  moreover have "length (range_DirMap (DirMap b) order []) = card (dom (DirMap b))"
    using ro len [of order "DirMap b" "[]"] distinct_card [of order] by (auto simp: range_order_def)
  ultimately show ?thesis
    by (simp add: Sort_def)
qed

text \<open>
  The example of the specification: \<open>b/file1\<close> of 100 bytes and \<open>c/file2\<close> of 50 bytes,
  as relative paths.
\<close>

definition sort_example :: Bloat where
  "sort_example = AddFile (AddFile (NewBloat False) ''b/file1'' 100) ''c/file2'' 50"

lemma sort_example_Dirs:
  "Dirs (Sort [''c'', ''.'', ''b''] sort_example)
     = [\<lparr>Path = ''.'', Bytes = 150\<rparr>, \<lparr>Path = ''b'', Bytes = 100\<rparr>, \<lparr>Path = ''c'', Bytes = 50\<rparr>]"
  by code_simp

theorem Sort_descending_witness:
  "Suc 0 < length (Dirs (Sort [''c'', ''.'', ''b''] sort_example))
   \<and> sint (Bytes (Dirs (Sort [''c'', ''.'', ''b''] sort_example) ! Suc 0))
       \<le> sint (Bytes (Dirs (Sort [''c'', ''.'', ''b''] sort_example) ! 0))"
proof -
  have h: "Suc 0 < length (Dirs (Sort [''c'', ''.'', ''b''] sort_example))"
    by (simp add: sort_example_Dirs)
  from Sort_descending [OF h] h show ?thesis by simp
qed

section \<open>The path of a record is its key\<close>

lemma keys_match_AddBloat: "keys_match b \<Longrightarrow> keys_match (AddBloat b d n)"
  by (auto simp: keys_match_def AddBloat_lookup split: if_splits option.splits)

lemma keys_match_foldl: "keys_match b \<Longrightarrow> keys_match (foldl (\<lambda>b d. AddBloat b d n) b ds)"
  by (induction ds arbitrary: b) (auto simp: keys_match_AddBloat)



section \<open>Scans\<close>

subsection \<open>An example environment\<close>

text \<open>
  The tree of the specification's example, \<open>/a/b/file1\<close> of 100 bytes and
  \<open>/a/c/file2\<close> of 50 bytes, in which a directory reports 4096 bytes; a root \<open>/x\<close>
  with an entry that cannot be opened; a relative root \<open>d\<close>. The working directory is
  gone, so \<^verbatim>\<open>filepath.Abs\<close> fails on a relative path and returns an absolute clean
  path as it is.
\<close>

definition dir_entry :: "string \<Rightarrow> visit" where
  "dir_entry p = \<lparr>vpath = p, vinfo = \<lparr>Size = 4096, IsDir = True\<rparr>, verr = None\<rparr>"

definition file_entry :: "string \<Rightarrow> int64 \<Rightarrow> visit" where
  "file_entry p n = \<lparr>vpath = p, vinfo = \<lparr>Size = n, IsDir = False\<rparr>, verr = None\<rparr>"

definition failed_entry :: "string \<Rightarrow> string \<Rightarrow> visit" where
  "failed_entry p err = \<lparr>vpath = p, vinfo = \<lparr>Size = 0, IsDir = False\<rparr>, verr = Some err\<rparr>"

text \<open>
  What \<^verbatim>\<open>filepath.Rel\<close> answers for a clean path at or below a clean base other than
  \<open>/\<close>, the only arguments the examples use; an error elsewhere.
\<close>

definition rel_inside :: "string \<Rightarrow> string \<Rightarrow> string + string" where
  "rel_inside base p =
     (if p = base then Inr ''.''
      else if take (Suc (length base)) p = base @ ''/'' then Inr (drop (Suc (length base)) p)
      else Inl (''Rel: can't make '' @ p @ '' relative to '' @ base))"

text \<open>
  In the examples a size is printed in decimal digits followed by \<open>B\<close>, in place
  of the human-readable form of \<^verbatim>\<open>bytesize.FormatBytes\<close>.
\<close>

function show_nat :: "nat \<Rightarrow> string" where
  "show_nat n =
     (if n < 10 then [''0123456789'' ! n]
      else show_nat (n div 10) @ [''0123456789'' ! (n mod 10)])"
  by pat_completeness auto
termination
  by (relation "measure id") auto

definition env_ex :: env where
  "env_ex = \<lparr>
     Walk = (\<lambda>root.
       if root = ''/a'' then
         [dir_entry ''/a'', dir_entry ''/a/b'', file_entry ''/a/b/file1'' 100,
          dir_entry ''/a/c'', file_entry ''/a/c/file2'' 50]
       else if root = ''/x'' then
         [dir_entry ''/x'', file_entry ''/x/f'' 7,
          failed_entry ''/x/secret'' ''open /x/secret: permission denied'',
          file_entry ''/x/z'' 9]
       else if root = ''d'' then [dir_entry ''d'', file_entry ''d/g'' 3]
       else [failed_entry root (''lstat '' @ root @ '': no such file or directory'')]),
     AbsPath = (\<lambda>p. if p \<noteq> [] \<and> IsPathSeparator (hd p) then Inr p
                     else Inl ''getwd: no such file or directory''),
     RelPath = rel_inside,
     FormatBytes = (\<lambda>n. show_nat (unat n) @ ''B'')\<rparr>"

declare show_nat.simps [simp del]

subsection \<open>What a scan keeps\<close>

lemma Abs_AddBloat [simp]: "Abs (AddBloat b d s) = Abs b"
  by (simp add: AddBloat_def split: option.splits)

lemma Abs_foldl_AddBloat [simp]: "Abs (foldl (\<lambda>b d. AddBloat b d s) b ds) = Abs b"
  by (induction ds arbitrary: b) auto

lemma Abs_AddFile [simp]: "Abs (AddFile b p s) = Abs b"
  by (simp add: AddFile_def AddFile_chain)

lemma dom_AddFile: "dom (DirMap (AddFile b p s)) = dom (DirMap b) \<union> set (parent_chain p)"
  by (simp add: AddFile_def AddFile_chain foldl_AddBloat_dom)

lemma total_AddFile:
  "total (AddFile b p s) k = total b k + (if k \<in> set (parent_chain p) then s else 0)"
  by (simp add: AddFile_def AddFile_chain foldl_AddBloat_total parent_chain_distinct)

text \<open>A later state keeps the mode, every key and every line of an earlier one.\<close>

definition extends :: "state \<Rightarrow> state \<Rightarrow> bool" where
  "extends st st' =
     (Abs (fst st') = Abs (fst st) \<and> dom (DirMap (fst st)) \<subseteq> dom (DirMap (fst st'))
      \<and> prefix (snd st) (snd st'))"

lemma extends_refl [simp]: "extends st st"
  by (simp add: extends_def)




lemma walk_append:
  "walk e r (vs1 @ vs2) st =
     (case walk e r vs1 st of
        Returned (None, st') \<Rightarrow> walk e r vs2 st'
      | Returned (Some err, st') \<Rightarrow> Returned (Some err, st')
      | Panic out \<Rightarrow> Panic out)"
  by (induction vs1 arbitrary: st) (auto split: run.splits option.splits prod.splits)



lemma scan_roots_append:
  "scan_roots e (rs1 @ rs2) st =
     (case scan_roots e rs1 st of Returned st' \<Rightarrow> scan_roots e rs2 st' | Panic out \<Rightarrow> Panic out)"
  by (induction rs1 arbitrary: st) (auto split: run.splits)

lemma main_scans:
  "args \<noteq> [] \<Longrightarrow> \<not> is_help (hd args) \<Longrightarrow>
     main e order (prog # args) =
       (case scan_roots e args (NewBloat (1 < length args), []) of
          Panic out \<Rightarrow> Crash out
        | Returned (b, out) \<Rightarrow> Exit (Report e (Sort order b, out)))"
  by (cases args) auto

subsection \<open>Which entries count\<close>











subsection \<open>Errors\<close>


lemma walk_panics:
  assumes "walk e root vs1 st = Returned (None, (b1, out1))" and "verr v = None"
    and "resolve e (Abs b1) root (vpath v) = Inl perr"
  shows "walk e root (vs1 @ v # vs2) st
           = Panic (out1 @ [Stdout (vpath v), Stderr (''can't process '' @ vpath v @ '': '' @ perr)])"
proof -
  have "walkFn e root v (b1, out1)
          = Panic (out1 @ [Stdout (vpath v), Stderr (''can't process '' @ vpath v @ '': '' @ perr)])"
    using assms(2,3) by (simp add: walkFn_def)
  then show ?thesis
    using assms(1) by (simp add: walk_append)
qed


text \<open>
  C8. Let the walk of a root reach, after entries that were processed, an entry
  without error whose path does not resolve. Then \<^verbatim>\<open>Scan\<close> echoes the path, writes
  \<open>can't process <path>: <error>\<close> to standard error and panics: the entry is not
  skipped, the rest of the walk and the roots that follow are not scanned, and
  \<^verbatim>\<open>main\<close> crashes with the message as its last line, before \<^verbatim>\<open>Sort\<close> and
  \<^verbatim>\<open>Report\<close>: no report is written.
\<close>

theorem resolution_failure_aborts:
  assumes "Walk e root = vs1 @ v # vs2"
    and "walk e root vs1 st = Returned (None, (b1, out1))"
    and "verr v = None"
    and "resolve e (Abs b1) root (vpath v) = Inl perr"
    and "args = before @ root # after" and "\<not> is_help (hd args)"
    and "scan_roots e before (NewBloat (1 < length args), []) = Returned st"
  shows "Scan e root st
           = Panic (out1 @ [Stdout (vpath v), Stderr (''can't process '' @ vpath v @ '': '' @ perr)])
       \<and> main e order (prog # args)
           = Crash (out1 @ [Stdout (vpath v), Stderr (''can't process '' @ vpath v @ '': '' @ perr)])"
proof -
  let ?out = "out1 @ [Stdout (vpath v), Stderr (''can't process '' @ vpath v @ '': '' @ perr)]"
  have S: "Scan e root st = Panic ?out"
    using walk_panics [OF assms(2,3,4), of vs2] assms(1) by (simp add: Scan_def)
  have "scan_roots e args (NewBloat (1 < length args), []) = Panic ?out"
    using assms(5,7) S by (simp add: scan_roots_append)
  moreover have "args \<noteq> []"
    using assms(5) by simp
  ultimately have "main e order (prog # args) = Crash ?out"
    using assms(6) by (simp add: main_scans)
  with S show ?thesis by simp
qed

text \<open>
  The examples: the accumulator after the two good entries of \<open>/x\<close>, and after the five
  entries of \<open>/a\<close> in absolute mode.
\<close>

definition x_seen :: Bloat where
  "x_seen = AddFile (AddFile (NewBloat True) ''/x'' 4096) ''/x/f'' 7"

definition a_seen :: "Bloat \<Rightarrow> Bloat" where
  "a_seen b = AddFile (AddFile (AddFile (AddFile (AddFile b ''/a'' 4096) ''/a/b'' 4096)
      ''/a/b/file1'' 100) ''/a/c'' 4096) ''/a/c/file2'' 50"

definition a_trace :: "line list" where
  "a_trace = [Stdout ''/a'', Stdout ''/a/b'', Stdout ''/a/b/file1'', Stdout ''/a/c'',
              Stdout ''/a/c/file2'']"



lemma Abs_x_seen [simp]: "Abs x_seen" and Abs_a_seen [simp]: "Abs (a_seen b) = Abs b"
  by (simp_all add: x_seen_def a_seen_def NewBloat_def)

lemma scan_a_abs:
  "Abs b \<Longrightarrow> Scan env_ex ''/a'' (b, out) = Returned (a_seen b, out @ a_trace)"
  by (simp add: Scan_def walkFn_def resolve_def env_ex_def dir_entry_def file_entry_def
      IsPathSeparator_def a_seen_def a_trace_def)


lemma Walk_d: "Walk env_ex ''d'' = [] @ dir_entry ''d'' # [file_entry ''d/g'' 3]"
  by (simp add: env_ex_def)

theorem resolution_failure_aborts_witness:
  "Scan env_ex ''d'' (a_seen (NewBloat True), a_trace)
     = Panic (a_trace @ [Stdout ''d'', Stderr ''can't process d: getwd: no such file or directory''])
   \<and> main env_ex [] [''bloat'', ''/a'', ''d'']
     = Crash (a_trace @ [Stdout ''d'', Stderr ''can't process d: getwd: no such file or directory''])"
proof -
  have w: "walk env_ex ''d'' [] (a_seen (NewBloat True), a_trace)
             = Returned (None, (a_seen (NewBloat True), a_trace))"
    by simp
  have ok: "verr (dir_entry ''d'') = None"
    by (simp add: dir_entry_def)
  have bad: "resolve env_ex (Abs (a_seen (NewBloat True))) ''d'' (vpath (dir_entry ''d''))
               = Inl ''getwd: no such file or directory''"
    by (simp add: resolve_def env_ex_def dir_entry_def NewBloat_def IsPathSeparator_def)
  have a: "[''/a'', ''d''] = [''/a''] @ ''d'' # []"
    by simp
  have h: "\<not> is_help (hd [''/a'', ''d''])"
    by (simp add: is_help_def)
  have b: "scan_roots env_ex [''/a''] (NewBloat (1 < length [''/a'', ''d'']), [])
             = Returned (a_seen (NewBloat True), a_trace)"
    using scan_a_abs [of "NewBloat True" "[]"] by (simp add: NewBloat_def)
  from resolution_failure_aborts [OF Walk_d w ok bad a h b, of "[]" "''bloat''"]
  show ?thesis by (simp add: dir_entry_def)
qed

text \<open>
  The scan and the report of the example in relative mode: the root is printed with
  8342 bytes.
\<close>

lemma ex_dirs:
  "Dirs (Sort [''c'', ''b'', ''.''] (a_seen0))
     = [\<lparr>Path = ''.'', Bytes = 8342\<rparr>, \<lparr>Path = ''b'', Bytes = 100\<rparr>, \<lparr>Path = ''c'', Bytes = 50\<rparr>]"
  if "a_seen0 = AddFile (AddFile (AddFile (AddFile (AddFile (NewBloat False) ''.'' 4096) ''b'' 4096)
      ''b/file1'' 100) ''c'' 4096) ''c/file2'' 50"
  unfolding that by code_simp

lemma report_ex:
  "main env_ex [''c'', ''b'', ''.''] [''bloat'', ''/a'']
     = Exit [Stdout ''/a'', Stdout ''/a/b'', Stdout ''/a/b/file1'', Stdout ''/a/c'',
         Stdout ''/a/c/file2'',
         Stdout '' 8342B .'', Stdout ''  100B b'', Stdout ''   50B c'']"
proof -
  have "scan_roots env_ex [''/a''] (NewBloat False, [])
     = Returned (AddFile (AddFile (AddFile (AddFile (AddFile (NewBloat False) ''.'' 4096) ''b'' 4096)
      ''b/file1'' 100) ''c'' 4096) ''c/file2'' 50, a_trace)"
    by (simp add: Scan_def walkFn_def resolve_def env_ex_def dir_entry_def file_entry_def
      rel_inside_def NewBloat_def a_trace_def)
  moreover have "FormatBytes env_ex n = show_nat (unat n) @ ''B''" for n
    by (simp add: env_ex_def)
  moreover have "replicate 2 CHR '' '' = ''  ''" "replicate 3 CHR '' '' = ''   ''"
    by (simp_all add: numeral_2_eq_2 numeral_3_eq_3)
  ultimately show ?thesis
    by (simp add: Report_def ex_dirs pad_left_def show_nat.simps a_trace_def is_help_def
        del: scan_roots.simps)
qed

section \<open>Relative and absolute keys\<close>

text \<open>
  A path in a tree is a list of names. A name is not empty, holds no separator and is
  neither \<open>.\<close> nor \<open>..\<close>.
\<close>

definition name_ok :: "string \<Rightarrow> bool" where
  "name_ok x = (x \<noteq> [] \<and> list_all (\<lambda>c. \<not> IsPathSeparator c) x \<and> x \<noteq> ''.'' \<and> x \<noteq> ''..'')"

text \<open>
  The key of a path below the root is written with separators between the names. In
  relative mode the root itself is \<open>.\<close> (what \<^verbatim>\<open>filepath.Rel\<close> returns for the root);
  in absolute mode a key starts with the separator, and \<open>/\<close> alone is the root of the
  file system.
\<close>

fun join :: "string list \<Rightarrow> string" where
  "join [] = []"
| "join [x] = x"
| "join (x # y # ys) = x @ ''/'' @ join (y # ys)"

definition rel_path :: "string list \<Rightarrow> string" where
  "rel_path cs = (if cs = [] then ''.'' else join cs)"

definition abs_path :: "string list \<Rightarrow> string" where
  "abs_path cs = ''/'' @ join cs"

subsection \<open>The parent of a key\<close>

lemma scan_sep_prefix: "n \<le> length p \<Longrightarrow> scan_sep (p @ q) n = scan_sep p n"
  by (induction n) (auto simp: nth_append)

lemma Dir_prefix:
  "take (scan_sep p (length p)) p = rev (dropWhile (\<lambda>c. \<not> IsPathSeparator c) (rev p))"
proof (induction p rule: rev_induct)
  case Nil
  then show ?case by simp
next
  case (snoc c p)
  show ?case
  proof (cases "IsPathSeparator c")
    case True
    then show ?thesis by simp
  next
    case False
    have "scan_sep (p @ [c]) (length (p @ [c])) = scan_sep p (length p)"
      using False by (simp add: scan_sep_prefix)
    moreover have "scan_sep p (length p) \<le> length p"
      by (rule scan_sep_le)
    ultimately show ?thesis
      using False snoc by simp
  qed
qed

lemma Dir_append_name:
  assumes "list_all (\<lambda>c. \<not> IsPathSeparator c) x" and "P = [] \<or> IsPathSeparator (last P)"
  shows "Dir (P @ x) = Clean P"
proof -
  have "dropWhile (\<lambda>c. \<not> IsPathSeparator c) (rev x @ rev P) = dropWhile (\<lambda>c. \<not> IsPathSeparator c) (rev P)"
    using assms(1) by (intro dropWhile_append2) (simp add: list_all_iff)
  moreover have "dropWhile (\<lambda>c. \<not> IsPathSeparator c) (rev P) = rev P"
    using assms(2) by (cases P rule: rev_cases) auto
  ultimately have "rev (dropWhile (\<lambda>c. \<not> IsPathSeparator c) (rev (P @ x))) = P"
    by simp
  then show ?thesis
    unfolding Dir_def Dir_prefix by simp
qed

text \<open>The test of the real-element case: is a separator written before the name?\<close>

definition sep_needed :: "bool \<Rightarrow> string \<Rightarrow> bool" where
  "sep_needed rooted out = ((rooted \<and> length out \<noteq> 1) \<or> (\<not> rooted \<and> length out \<noteq> 0))"

lemma clean_loop_name:
  assumes "name_ok x"
  shows "clean_loop rooted (x @ CHR ''/'' # rest) out dotdot
           = clean_loop rooted rest ((if sep_needed rooted out then out @ ''/'' else out) @ x) dotdot"
proof -
  from assms obtain c x' where x: "x = c # x'"
    by (cases x) (auto simp: name_ok_def)
  have nosep: "list_all (\<lambda>c. \<not> IsPathSeparator c) x"
    using assms by (simp add: name_ok_def)
  then have c: "\<not> IsPathSeparator c"
    using x by simp
  let ?cs = "x' @ CHR ''/'' # rest"
  have e: "x @ CHR ''/'' # rest = c # ?cs"
    using x by simp
  have nd: "\<not> (c = CHR ''.'' \<and> (?cs = [] \<or> IsPathSeparator (hd ?cs)))"
  proof
    assume a: "c = CHR ''.'' \<and> (?cs = [] \<or> IsPathSeparator (hd ?cs))"
    then have "x' = []"
      using nosep x by (cases x') auto
    with a x assms show False
      by (simp add: name_ok_def)
  qed
  have ndd: "\<not> (c = CHR ''.'' \<and> ?cs \<noteq> [] \<and> hd ?cs = CHR ''.''
              \<and> (tl ?cs = [] \<or> IsPathSeparator (hd (tl ?cs))))"
  proof
    assume a: "c = CHR ''.'' \<and> ?cs \<noteq> [] \<and> hd ?cs = CHR ''.''
              \<and> (tl ?cs = [] \<or> IsPathSeparator (hd (tl ?cs)))"
    then obtain x'' where x': "x' = CHR ''.'' # x''"
      by (cases x') (auto simp: IsPathSeparator_def)
    with a have "x'' = []"
      using nosep x by (cases x'') auto
    with a x x' assms show False
      by (simp add: name_ok_def)
  qed
  have all: "\<forall>c \<in> set x. \<not> IsPathSeparator c"
    using nosep by (simp add: list_all_iff)
  have s: "IsPathSeparator CHR ''/''"
    by (simp add: IsPathSeparator_def)
  have tw: "takeWhile (\<lambda>x. \<not> IsPathSeparator x) (x @ CHR ''/'' # rest) = x"
    using all s by (simp add: takeWhile_append2)
  have dw: "dropWhile (\<lambda>x. \<not> IsPathSeparator x) (x @ CHR ''/'' # rest) = CHR ''/'' # rest"
    using all s by (simp add: dropWhile_append2)
  have "clean_loop rooted (x @ CHR ''/'' # rest) out dotdot
          = clean_loop rooted (dropWhile (\<lambda>x. \<not> IsPathSeparator x) (x @ CHR ''/'' # rest))
              ((if (rooted \<and> length out \<noteq> 1) \<or> (\<not> rooted \<and> length out \<noteq> 0) then out @ ''/'' else out)
                @ takeWhile (\<lambda>x. \<not> IsPathSeparator x) (x @ CHR ''/'' # rest)) dotdot"
    unfolding e by (simp only: clean_loop.simps(2) c nd ndd if_False)
  also have "\<dots> = clean_loop rooted (CHR ''/'' # rest)
      ((if sep_needed rooted out then out @ ''/'' else out) @ x) dotdot"
    by (simp only: tw dw sep_needed_def)
  also have "\<dots> = clean_loop rooted rest ((if sep_needed rooted out then out @ ''/'' else out) @ x) dotdot"
    by (simp only: clean_loop.simps(2) s if_True)
  finally show ?thesis .
qed

text \<open>The buffer after a name was written to it.\<close>

definition put_name :: "bool \<Rightarrow> string \<Rightarrow> string \<Rightarrow> string" where
  "put_name rooted out x = (if sep_needed rooted out then out @ ''/'' else out) @ x"

lemma clean_loop_names:
  "list_all name_ok cs \<Longrightarrow>
     clean_loop rooted (concat (map (\<lambda>x. x @ ''/'') cs)) out dotdot = foldl (put_name rooted) out cs"
proof (induction cs arbitrary: out)
  case Nil
  then show ?case by simp
next
  case (Cons x cs)
  then have "clean_loop rooted (x @ CHR ''/'' # concat (map (\<lambda>x. x @ ''/'') cs)) out dotdot
      = clean_loop rooted (concat (map (\<lambda>x. x @ ''/'') cs)) (put_name rooted out x) dotdot"
    unfolding put_name_def by (intro clean_loop_name) simp
  with Cons show ?case by simp
qed

lemma join_snoc: "cs \<noteq> [] \<Longrightarrow> join (cs @ [x]) = join cs @ ''/'' @ x"
  by (induction cs rule: join.induct) auto

lemma join_nonempty: "list_all name_ok cs \<Longrightarrow> cs \<noteq> [] \<Longrightarrow> join cs \<noteq> []"
  by (induction cs rule: join.induct) (auto simp: name_ok_def)

lemma join_hd: "list_all name_ok cs \<Longrightarrow> cs \<noteq> [] \<Longrightarrow> \<not> IsPathSeparator (hd (join cs))"
  by (induction cs rule: join.induct) (auto simp: name_ok_def neq_Nil_conv)

lemma concat_slash: "cs \<noteq> [] \<Longrightarrow> concat (map (\<lambda>x. x @ ''/'') cs) = join cs @ ''/''"
  by (induction cs rule: join.induct) auto

lemma foldl_put_rel: "list_all name_ok cs \<Longrightarrow> foldl (put_name False) [] cs = join cs"
proof (induction cs rule: rev_induct)
  case Nil
  then show ?case by simp
next
  case (snoc x cs)
  then show ?case
    using join_nonempty [of cs]
    by (cases "cs = []") (auto simp: put_name_def sep_needed_def join_snoc)
qed

lemma foldl_put_abs: "list_all name_ok cs \<Longrightarrow> foldl (put_name True) ''/'' cs = ''/'' @ join cs"
proof (induction cs rule: rev_induct)
  case Nil
  then show ?case by simp
next
  case (snoc x cs)
  then show ?case
    using join_nonempty [of cs]
    by (cases "cs = []") (auto simp: put_name_def sep_needed_def join_snoc)
qed

lemma Clean_rel: 
  assumes "list_all name_ok cs" and "cs \<noteq> []"
  shows "Clean (join cs @ ''/'') = join cs"
proof -
  have ne: "join cs \<noteq> []" using assms by (rule join_nonempty)
  have "\<not> IsPathSeparator (hd (join cs @ ''/''))"
    using join_hd [OF assms] ne by simp
  moreover have "clean_loop False (join cs @ ''/'') [] 0 = join cs"
    using clean_loop_names [OF assms(1), of False "[]" 0] assms
    by (simp add: concat_slash foldl_put_rel)
  ultimately show ?thesis
    using ne by (simp add: Clean_def)
qed

lemma Clean_abs:
  assumes "list_all name_ok cs" and "cs \<noteq> []"
  shows "Clean (CHR ''/'' # join cs @ ''/'') = CHR ''/'' # join cs"
proof -
  have "clean_loop True (join cs @ ''/'') ''/'' 1 = ''/'' @ join cs"
    using clean_loop_names [OF assms(1), of True "''/''" 1] assms
    by (simp add: concat_slash foldl_put_abs)
  then show ?thesis
    by (simp add: Clean_def IsPathSeparator_def)
qed

lemma Dir_rel_path:
  assumes "list_all name_ok (cs @ [x])"
  shows "Dir (rel_path (cs @ [x])) = rel_path cs"
proof (cases "cs = []")
  case True
  have "Dir ([] @ x) = Clean []"
    using assms by (intro Dir_append_name) (auto simp: name_ok_def)
  with True show ?thesis
    by (simp add: rel_path_def Clean_def)
next
  case False
  have "Dir ((join cs @ ''/'') @ x) = Clean (join cs @ ''/'')"
    using assms by (intro Dir_append_name) (auto simp: name_ok_def IsPathSeparator_def)
  with False assms show ?thesis
    by (simp add: rel_path_def join_snoc Clean_rel)
qed

lemma Dir_abs_path:
  assumes "list_all name_ok (cs @ [x])"
  shows "Dir (abs_path (cs @ [x])) = abs_path cs"
proof (cases "cs = []")
  case True
  have "Dir (''/'' @ x) = Clean ''/''"
    using assms by (intro Dir_append_name) (auto simp: name_ok_def IsPathSeparator_def)
  with True show ?thesis
    by (simp add: abs_path_def Clean_def IsPathSeparator_def)
next
  case False
  have "Dir ((''/'' @ join cs @ ''/'') @ x) = Clean (''/'' @ join cs @ ''/'')"
    using assms by (intro Dir_append_name) (auto simp: name_ok_def IsPathSeparator_def)
  with False assms show ?thesis
    by (simp add: abs_path_def join_snoc Clean_abs)
qed

subsection \<open>The two runs over a tree\<close>

text \<open>
  The accumulation over a list of entries, each a key and a size, and its two runs
  over a tree: an entry is a path below the root and a size; \<open>rs\<close> is the absolute
  path of the root.
\<close>

definition accumulate :: "(string \<times> int64) list \<Rightarrow> Bloat \<Rightarrow> Bloat" where
  "accumulate es b = foldl (\<lambda>b e. AddFile b (fst e) (snd e)) b es"

definition rel_run :: "(string list \<times> int64) list \<Rightarrow> Bloat" where
  "rel_run es = accumulate (map (\<lambda>e. (rel_path (fst e), snd e)) es) (NewBloat False)"

definition abs_run :: "string list \<Rightarrow> (string list \<times> int64) list \<Rightarrow> Bloat" where
  "abs_run rs es = accumulate (map (\<lambda>e. (abs_path (rs @ fst e), snd e)) es) (NewBloat True)"

subsection \<open>Keys are unique\<close>

lemma components_name:
  "list_all (\<lambda>c. \<not> IsPathSeparator c) x \<Longrightarrow> components x = [x]"
  by (induction x) auto

lemma components_name_slash:
  "list_all (\<lambda>c. \<not> IsPathSeparator c) x \<Longrightarrow>
     components (x @ CHR ''/'' # rest) = x # components rest"
  by (induction x) (auto simp: IsPathSeparator_def)

lemma components_join:
  "list_all name_ok cs \<Longrightarrow> cs \<noteq> [] \<Longrightarrow> components (join cs) = cs"
  by (induction cs rule: join.induct)
     (auto simp: name_ok_def components_name components_name_slash)

lemma join_inject:
  assumes "list_all name_ok cs" and "list_all name_ok ds" and "join cs = join ds"
  shows "cs = ds"
proof (cases "cs = []")
  case True
  then show ?thesis
    using assms join_nonempty [of ds] by (cases "ds = []") auto
next
  case False
  then have "ds \<noteq> []"
    using assms join_nonempty [of cs] by auto
  then have "components (join ds) = ds"
    using assms(2) by (simp add: components_join)
  moreover have "components (join cs) = cs"
    using assms(1) False by (simp add: components_join)
  ultimately show ?thesis
    unfolding assms(3) by metis
qed

lemma rel_path_inject:
  assumes "list_all name_ok cs" and "list_all name_ok ds" and "rel_path cs = rel_path ds"
  shows "cs = ds"
proof -
  have dot: "list_all name_ok xs \<Longrightarrow> xs \<noteq> [] \<Longrightarrow> join xs \<noteq> ''.''" for xs
  proof
    assume a: "list_all name_ok xs" "xs \<noteq> []" "join xs = ''.''"
    then have "components ''.'' = xs"
      using components_join [of xs] by simp
    then have "xs = [''.'']"
      by (simp add: IsPathSeparator_def)
    with a(1) show False
      by (simp add: name_ok_def)
  qed
  show ?thesis
  proof (cases "cs = []")
    case True
    then show ?thesis
      using assms dot [of ds] by (cases "ds = []") (auto simp: rel_path_def)
  next
    case False
    then have "ds \<noteq> []"
      using assms dot [of cs] by (auto simp: rel_path_def)
    with False assms show ?thesis
      by (simp add: rel_path_def join_inject)
  qed
qed

lemma abs_path_inject:
  "list_all name_ok cs \<Longrightarrow> list_all name_ok ds \<Longrightarrow> abs_path cs = abs_path ds \<Longrightarrow> cs = ds"
  by (simp add: abs_path_def join_inject)

subsection \<open>The ancestors of a key are the keys of its proper prefixes\<close>

lemma Dir_rel_root [simp]: "Dir (rel_path []) = rel_path []"
  by (simp add: rel_path_def)

lemma Dir_abs_root [simp]: "Dir (abs_path []) = abs_path []"
  by (simp add: abs_path_def)

lemma strict_prefix_snoc: "strict_prefix ps (cs @ [x]) \<longleftrightarrow> ps = cs \<or> strict_prefix ps cs"
  by (auto simp: strict_prefix_def)

lemma chain_of_paths:
  assumes step: "\<And>cs x. list_all name_ok (cs @ [x]) \<Longrightarrow> Dir (P (cs @ [x])) = P cs"
    and root: "Dir (P []) = P []"
    and inj: "\<And>cs ds. list_all name_ok cs \<Longrightarrow> list_all name_ok ds \<Longrightarrow> P cs = P ds \<Longrightarrow> cs = ds"
  shows "list_all name_ok cs \<Longrightarrow>
           set (parent_chain (P cs)) = P ` {ps. strict_prefix ps cs}
           \<and> length (parent_chain (P cs)) = length cs"
proof (induction cs rule: rev_induct)
  case Nil
  then show ?case
    using root by (simp add: parent_chain.simps [of "P []"])
next
  case (snoc x cs)
  then have ok: "list_all name_ok (cs @ [x])" and okc: "list_all name_ok cs"
    by simp_all
  have D: "Dir (P (cs @ [x])) = P cs"
    using ok by (rule step)
  have "P cs \<noteq> P (cs @ [x])"
    using inj [OF okc ok] by auto
  then have "parent_chain (P (cs @ [x])) = P cs # parent_chain (P cs)"
    using D by (simp add: parent_chain.simps [of "P (cs @ [x])"])
  moreover have "{ps. strict_prefix ps (cs @ [x])} = insert cs {ps. strict_prefix ps cs}"
    by (auto simp: strict_prefix_snoc)
  ultimately show ?case
    using snoc.IH [OF okc] by simp
qed

lemma chain_rel:
  "list_all name_ok cs \<Longrightarrow>
     set (parent_chain (rel_path cs)) = rel_path ` {ps. strict_prefix ps cs}
     \<and> length (parent_chain (rel_path cs)) = length cs"
  by (rule chain_of_paths [where P = rel_path]) (auto intro: Dir_rel_path rel_path_inject)

lemma chain_abs:
  "list_all name_ok cs \<Longrightarrow>
     set (parent_chain (abs_path cs)) = abs_path ` {ps. strict_prefix ps cs}
     \<and> length (parent_chain (abs_path cs)) = length cs"
  by (rule chain_of_paths [where P = abs_path]) (auto intro: Dir_abs_path abs_path_inject)

lemma name_ok_prefix: "list_all name_ok cs \<Longrightarrow> strict_prefix ps cs \<Longrightarrow> list_all name_ok ps"
  by (auto simp: strict_prefix_def prefix_def)

lemma in_chain_rel:
  assumes "list_all name_ok cs" and "list_all name_ok ds"
  shows "rel_path ds \<in> set (parent_chain (rel_path cs)) \<longleftrightarrow> strict_prefix ds cs"
  using chain_rel [OF assms(1)] rel_path_inject [OF assms(2)] name_ok_prefix [OF assms(1)]
  by auto

lemma in_chain_abs:
  assumes "list_all name_ok cs" and "list_all name_ok ds"
  shows "abs_path ds \<in> set (parent_chain (abs_path cs)) \<longleftrightarrow> strict_prefix ds cs"
  using chain_abs [OF assms(1)] abs_path_inject [OF assms(2)] name_ok_prefix [OF assms(1)]
  by auto

lemma in_chain_abs_root:
  assumes "list_all name_ok rs" and "list_all name_ok cs" and "list_all name_ok ds"
  shows "abs_path (rs @ ds) \<in> set (parent_chain (abs_path (rs @ cs))) \<longleftrightarrow> strict_prefix ds cs"
  using in_chain_abs [of "rs @ cs" "rs @ ds"] assms by (simp add: strict_prefix_def)

subsection \<open>The records after a run\<close>

lemma total_accumulate:
  "total (accumulate es b) k
     = total b k + sum_list (map snd (filter (\<lambda>e. k \<in> set (parent_chain (fst e))) es))"
proof (induction es arbitrary: b)
  case Nil
  then show ?case by (simp add: accumulate_def)
next
  case (Cons e es)
  have "accumulate (e # es) b = accumulate es (AddFile b (fst e) (snd e))"
    by (simp add: accumulate_def)
  then show ?case
    using Cons.IH [of "AddFile b (fst e) (snd e)"]
    by (simp add: total_AddFile add.assoc)
qed

lemma dom_accumulate:
  "dom (DirMap (accumulate es b))
     = dom (DirMap b) \<union> {k. \<exists>e \<in> set es. k \<in> set (parent_chain (fst e))}"
proof (induction es arbitrary: b)
  case Nil
  then show ?case by (simp add: accumulate_def)
next
  case (Cons e es)
  have "accumulate (e # es) b = accumulate es (AddFile b (fst e) (snd e))"
    by (simp add: accumulate_def)
  then show ?case
    using Cons.IH [of "AddFile b (fst e) (snd e)"]
    by (auto simp: dom_AddFile)
qed

lemma keys_match_accumulate: "keys_match b \<Longrightarrow> keys_match (accumulate es b)"
proof (induction es arbitrary: b)
  case Nil
  then show ?case by (simp add: accumulate_def)
next
  case (Cons e es)
  have "accumulate (e # es) b = accumulate es (AddFile b (fst e) (snd e))"
    by (simp add: accumulate_def)
  moreover have "keys_match (AddFile b (fst e) (snd e))"
    using Cons.prems by (simp add: AddFile_def AddFile_chain keys_match_foldl)
  ultimately show ?case
    using Cons.IH by simp
qed

lemma lookup_accumulate:
  assumes "keys_match b"
  shows "DirMap (accumulate es b) k
           = (if k \<in> dom (DirMap (accumulate es b))
              then Some \<lparr>Path = k, Bytes = total (accumulate es b) k\<rparr> else None)"
proof (cases "DirMap (accumulate es b) k")
  case None
  then show ?thesis by auto
next
  case (Some info)
  have "Path info = k"
    using keys_match_accumulate [OF assms, of es] Some by (simp add: keys_match_def)
  moreover have "Bytes info = total (accumulate es b) k"
    using Some by (simp add: total_def)
  ultimately have "info = \<lparr>Path = k, Bytes = total (accumulate es b) k\<rparr>"
    by (cases info) simp
  with Some show ?thesis by auto
qed

lemma keys_match_NewBloat [simp]: "keys_match (NewBloat absmode)"
  by (simp add: keys_match_def NewBloat_def)

lemma total_NewBloat [simp]: "total (NewBloat absmode) k = 0"
  by (simp add: total_def NewBloat_def)

lemma dom_NewBloat [simp]: "dom (DirMap (NewBloat absmode)) = {}"
  by (simp add: NewBloat_def)

lemma run_lookup:
  assumes "\<forall>e \<in> set es. k \<in> set (parent_chain (K (fst e))) \<longleftrightarrow> Q e"
  shows "DirMap (accumulate (map (\<lambda>e. (K (fst e), snd e)) es) (NewBloat absmode)) k
           = (if \<exists>e \<in> set es. Q e
              then Some \<lparr>Path = k, Bytes = sum_list (map snd (filter Q es))\<rparr>
              else None)"
proof -
  let ?run = "accumulate (map (\<lambda>e. (K (fst e), snd e)) es) (NewBloat absmode)"
  have "filter (\<lambda>e. k \<in> set (parent_chain (fst e))) (map (\<lambda>e. (K (fst e), snd e)) es)
          = map (\<lambda>e. (K (fst e), snd e)) (filter Q es)"
    using assms by (induction es) auto
  then have t: "total ?run k = sum_list (map snd (filter Q es))"
    by (simp add: total_accumulate comp_def)
  have d: "k \<in> dom (DirMap ?run) \<longleftrightarrow> (\<exists>e \<in> set es. Q e)"
    using assms by (auto simp: dom_accumulate)
  show ?thesis
    using lookup_accumulate [of "NewBloat absmode" "map (\<lambda>e. (K (fst e), snd e)) es" k] t d
    by simp
qed

text \<open>
  C4, amended. For every tree of entries below a root, the run with relative keys and
  the run with absolute keys agree on every directory at or below the root: the record
  under the absolute key is the record under the relative key with only its \<open>Path\<close>
  replaced, the same bytes, and there is none under the one key when there is none
  under the other. Every record of the relative run is of such a directory. The
  absolute run holds, in addition, a record for every directory above the root, with
  the sum of the sizes of all entries.
\<close>

theorem mode_totals_agree:
  assumes "list_all name_ok rs" and "list_all (\<lambda>e. list_all name_ok (fst e)) es"
    and "list_all name_ok ds"
  shows "DirMap (abs_run rs es) (abs_path (rs @ ds))
           = map_option (\<lambda>info. info\<lparr>Path := abs_path (rs @ ds)\<rparr>) (DirMap (rel_run es) (rel_path ds))
       \<and> (\<forall>k. k \<in> dom (DirMap (rel_run es)) \<longrightarrow> (\<exists>ps. list_all name_ok ps \<and> k = rel_path ps))
       \<and> (\<forall>ps. strict_prefix ps rs \<and> es \<noteq> [] \<longrightarrow>
            DirMap (abs_run rs es) (abs_path ps)
              = Some \<lparr>Path = abs_path ps, Bytes = sum_list (map snd es)\<rparr>)"
proof (intro conjI allI impI)
  have ok: "list_all name_ok (fst e)" if "e \<in> set es" for e
    using assms(2) that by (simp add: list_all_iff)
  have r: "\<forall>e \<in> set es. rel_path ds \<in> set (parent_chain (rel_path (fst e))) \<longleftrightarrow> strict_prefix ds (fst e)"
    using in_chain_rel [OF ok assms(3)] by blast
  have a: "\<forall>e \<in> set es. abs_path (rs @ ds) \<in> set (parent_chain (abs_path (rs @ fst e)))
             \<longleftrightarrow> strict_prefix ds (fst e)"
    using in_chain_abs_root [OF assms(1) ok assms(3)] by blast
  show "DirMap (abs_run rs es) (abs_path (rs @ ds))
           = map_option (\<lambda>info. info\<lparr>Path := abs_path (rs @ ds)\<rparr>) (DirMap (rel_run es) (rel_path ds))"
    unfolding abs_run_def rel_run_def
    using run_lookup [where K = rel_path, OF r, of False]
      run_lookup [where K = "\<lambda>cs. abs_path (rs @ cs)", OF a, of True]
    by simp
  show "\<exists>ps. list_all name_ok ps \<and> k = rel_path ps" if "k \<in> dom (DirMap (rel_run es))" for k
  proof -
    from that obtain e where e: "e \<in> set es" "k \<in> set (parent_chain (rel_path (fst e)))"
      by (auto simp: rel_run_def dom_accumulate)
    then obtain ps where "strict_prefix ps (fst e)" "k = rel_path ps"
      using chain_rel [OF ok [OF e(1)]] by auto
    then show ?thesis
      using name_ok_prefix [OF ok [OF e(1)]] by blast
  qed
  show "DirMap (abs_run rs es) (abs_path ps)
          = Some \<lparr>Path = abs_path ps, Bytes = sum_list (map snd es)\<rparr>"
    if ps: "strict_prefix ps rs \<and> es \<noteq> []" for ps
  proof -
    have pok: "list_all name_ok ps"
      using ps assms(1) by (auto intro: name_ok_prefix)
    have "strict_prefix ps (rs @ cs)" for cs
      using ps by (auto simp: strict_prefix_def prefix_def)
    then have u: "\<forall>e \<in> set es. abs_path ps \<in> set (parent_chain (abs_path (rs @ fst e))) \<longleftrightarrow> True"
      using in_chain_abs [OF _ pok] assms(1) ok by simp
    have "\<exists>e \<in> set es. True"
      using ps by (cases es) auto
    then show ?thesis
      unfolding abs_run_def
      using run_lookup [where K = "\<lambda>cs. abs_path (rs @ cs)" and Q = "\<lambda>e. True", OF u, of True]
      by simp
  qed
qed

text \<open>The tree of the specification's example, below the root \<open>/a\<close>.\<close>

definition tree_ex :: "(string list \<times> int64) list" where
  "tree_ex = [([''b'', ''file1''], 100), ([''c'', ''file2''], 50)]"

lemma tree_ex_ok: "list_all (\<lambda>e. list_all name_ok (fst e)) tree_ex"
  by (simp add: tree_ex_def name_ok_def IsPathSeparator_def)

lemma rel_run_ex: "DirMap (rel_run tree_ex) ''.'' = Some \<lparr>Path = ''.'', Bytes = 150\<rparr>"
  by code_simp

theorem mode_totals_agree_witness:
  "DirMap (abs_run [''a''] tree_ex) ''/a'' = Some \<lparr>Path = ''/a'', Bytes = 150\<rparr>
   \<and> DirMap (rel_run tree_ex) ''.'' = Some \<lparr>Path = ''.'', Bytes = 150\<rparr>
   \<and> (\<exists>ps. list_all name_ok ps \<and> ''.'' = rel_path ps)
   \<and> DirMap (abs_run [''a''] tree_ex) ''/'' = Some \<lparr>Path = ''/'', Bytes = 150\<rparr>"
proof -
  have rs: "list_all name_ok [''a'']" and ds: "list_all name_ok []"
    by (simp_all add: name_ok_def IsPathSeparator_def)
  have d: "''.'' \<in> dom (DirMap (rel_run tree_ex))"
    using rel_run_ex by (rule domI)
  have p: "strict_prefix [] [''a''] \<and> tree_ex \<noteq> []"
    by (simp add: tree_ex_def)
  have s: "sum_list (map snd tree_ex) = 150"
    by (simp add: tree_ex_def)
  note t = mode_totals_agree [OF rs tree_ex_ok ds]
  from t have "DirMap (abs_run [''a''] tree_ex) (abs_path [])
      = Some \<lparr>Path = abs_path [], Bytes = sum_list (map snd tree_ex)\<rparr>"
    using p by blast
  with t d show ?thesis
    by (simp add: rel_run_ex abs_path_def rel_path_def s)
qed

text \<open>
  C4, as stated, fails: the two runs differ in more than the form of the keys. For
  the root \<open>/a\<close> with one file \<open>f\<close> of 10 bytes the relative run holds the one record
  of \<open>.\<close>, and the absolute run holds two, of \<open>/a\<close> and of \<open>/\<close>: the directory
  above the root has a record of 10 bytes in one run and none in the other.
\<close>

theorem mode_keys_counterexample:
  "dom (DirMap (rel_run [([''f''], 10)])) = {''.''}
   \<and> dom (DirMap (abs_run [''a''] [([''f''], 10)])) = {''/a'', ''/''}
   \<and> DirMap (abs_run [''a''] [([''f''], 10)]) ''/'' = Some \<lparr>Path = ''/'', Bytes = 10\<rparr>"
proof -
  have r: "parent_chain ''f'' = [''.'']" and a: "parent_chain ''/a/f'' = [''/a'', ''/'']"
    by code_simp+
  have l: "DirMap (abs_run [''a''] [([''f''], 10)]) ''/'' = Some \<lparr>Path = ''/'', Bytes = 10\<rparr>"
    by code_simp
  show ?thesis
    using l by (simp add: rel_run_def abs_run_def accumulate_def dom_AddFile rel_path_def abs_path_def r a)
qed

end
